theory Spec2Isabelle
  imports Main "HOL-Library.Stream"
begin

section \<open>The DAG builder helper of importer/helpers/dagbuilder.go\<close>

text \<open>
  The helper keeps a one-chunk lookahead over a chunk splitter, builds leaf nodes from
  chunks and fills one layer of an internal node up to a maximum number of links.
  Go pointers to the helper and to a node become explicit state passing: every operation
  takes the helper (and the node) and returns the updated ones.
\<close>

subsection \<open>Bytes, errors and the chunk splitter\<close>

text \<open>
  A Go byte slice is a list of 8-bit characters; a slice that may be \<^verbatim>\<open>nil\<close> is an
  option (\<open>None\<close> is \<^verbatim>\<open>nil\<close>, \<open>Some []\<close> is the empty slice that is not nil).
  An \<^verbatim>\<open>error\<close> that may be nil is an \<open>error option\<close>.
\<close>

type_synonym bytes = string

datatype error =
    EOF
  | ErrSizeLimitExceeded
  | NilPointerDereference
  | Failure string

fun len :: "bytes option \<Rightarrow> nat" where
  "len None = 0"
| "len (Some d) = length d"

text \<open>
  The splitter is an interface value declared outside this file; all the helper does with
  it is call \<^verbatim>\<open>NextBytes\<close>. It is taken as the infinite sequence of answers it gives to
  successive calls, each a pair of a chunk and an error, either of which may be nil.
\<close>

type_synonym response = "bytes option \<times> error option"

type_synonym Splitter = "response stream"

definition NextBytes :: "Splitter \<Rightarrow> response \<times> Splitter" where
  "NextBytes s = (shd s, stl s)"

text \<open>The answers of a splitter that delivers the chunks \<open>cs\<close> and then reports
  \<^verbatim>\<open>io.EOF\<close> on every later call.\<close>

definition eof_forever :: Splitter where
  "eof_forever = sconst (None, Some EOF)"

definition chunk_source :: "bytes list \<Rightarrow> Splitter" where
  "chunk_source cs = map (\<lambda>c. (Some c, None)) cs @- eof_forever"

subsection \<open>Nodes\<close>

record Prefix =
  Version :: nat
  Codec :: nat
  MhType :: nat
  MhLength :: int

datatype FSType = TRaw | TDirectory | TFile

record FSNode =
  Type :: FSType
  Data :: "bytes option"

record RawNode =
  rawdata :: "bytes option"
  rawprefix :: "Prefix option"

text \<open>
  Modelled from the spec: the type \<^verbatim>\<open>UnixfsNode\<close> and the protobuf node it wraps are
  declared in files that are not part of the sources at hand. The fields \<^verbatim>\<open>raw\<close>,
  \<^verbatim>\<open>rawnode\<close>, \<^verbatim>\<open>node\<close> and \<^verbatim>\<open>ufmt\<close> are the ones the struct literals of this
  file set; a field a literal leaves out is nil. An internal node holds an ordered
  sequence of child references, each a content identifier with the aggregate size of the
  subtree it names; the content identifier is represented by the child it identifies.
\<close>

datatype UnixfsNode = UnixfsNode
    (raw: bool)
    (rawnode: "RawNode option")
    (node: "ProtoNode option")
    (ufmt: "FSNode option")
  and ProtoNode = ProtoNode
    (links: "Link list")
    (nodeprefix: "Prefix option")
  and Link = Link
    (Size: nat)
    (Target: UnixfsNode)

text \<open>Modelled from the spec: \<^verbatim>\<open>SetPrefix\<close> attaches the content-addressing prefix to
  the wrapped protobuf node.\<close>

fun SetPrefix :: "UnixfsNode \<Rightarrow> Prefix option \<Rightarrow> UnixfsNode" where
  "SetPrefix (UnixfsNode r rn None u) p = UnixfsNode r rn None u"
| "SetPrefix (UnixfsNode r rn (Some (ProtoNode ls q)) u) p =
     UnixfsNode r rn (Some (ProtoNode ls p)) u"

text \<open>Modelled from the spec: \<^verbatim>\<open>SetData\<close> stores the bytes in the file-format
  envelope of the node.\<close>

fun SetData :: "UnixfsNode \<Rightarrow> bytes option \<Rightarrow> UnixfsNode" where
  "SetData (UnixfsNode r rn pn None) d = UnixfsNode r rn pn None"
| "SetData (UnixfsNode r rn pn (Some f)) d = UnixfsNode r rn pn (Some (f\<lparr>Data := d\<rparr>))"

text \<open>Modelled from the spec: \<^verbatim>\<open>NumChildren\<close> is the length of the sequence of child
  references.\<close>

fun children :: "UnixfsNode \<Rightarrow> Link list" where
  "children (UnixfsNode r rn None u) = []"
| "children (UnixfsNode r rn (Some pn) u) = links pn"

definition NumChildren :: "UnixfsNode \<Rightarrow> int" where
  "NumChildren n = int (length (children n))"

text \<open>Modelled from the spec: the aggregate size of the subtree a node roots: the bytes
  it carries itself and the sizes recorded for its children.\<close>

fun FileSize :: "UnixfsNode \<Rightarrow> nat" where
  "FileSize (UnixfsNode True (Some rn) pn u) = len (rawdata rn)"
| "FileSize (UnixfsNode r rn pn (Some f)) =
     len (Data f) + sum_list (map Size (children (UnixfsNode r rn pn (Some f))))"
| "FileSize (UnixfsNode r rn pn None) = 0"

text \<open>The bytes a leaf carries: the block of a raw leaf, the data of a wrapped one.\<close>

fun payload :: "UnixfsNode \<Rightarrow> bytes" where
  "payload (UnixfsNode True (Some rn) pn u) = (case rawdata rn of None \<Rightarrow> [] | Some d \<Rightarrow> d)"
| "payload (UnixfsNode r rn pn (Some f)) = (case Data f of None \<Rightarrow> [] | Some d \<Rightarrow> d)"
| "payload (UnixfsNode r rn pn None) = []"

subsection \<open>What the helper uses from outside this file\<close>

text \<open>
  \<^verbatim>\<open>BlockSizeLimit\<close> is a package variable declared in another file; a size, so a
  natural number. Computing the content identifier of a raw block under a configured
  prefix, and staging a node in the write batch, are operations of other packages that
  may fail; whether they do is taken as given: \<open>sum_err\<close> for a prefix and a block,
  \<open>put_err\<close> for the nodes staged so far and the node to add.
\<close>

record Env =
  BlockSizeLimit :: nat
  sum_err :: "Prefix \<Rightarrow> bytes option \<Rightarrow> error option"
  put_err :: "UnixfsNode list \<Rightarrow> UnixfsNode \<Rightarrow> error option"

definition NewRawNode :: "bytes option \<Rightarrow> RawNode" where
  "NewRawNode d = \<lparr>rawdata = d, rawprefix = None\<rparr>"

text \<open>Modelled from the spec: \<^verbatim>\<open>NewRawNodeWPrefix\<close> builds the raw block tagged with
  the configured prefix, or fails when the identifier cannot be computed.\<close>

definition NewRawNodeWPrefix :: "Env \<Rightarrow> bytes option \<Rightarrow> Prefix \<Rightarrow> error + RawNode" where
  "NewRawNodeWPrefix env d p =
     (case sum_err env p d of
        Some e \<Rightarrow> Inl e
      | None \<Rightarrow> Inr \<lparr>rawdata = d, rawprefix = Some p\<rparr>)"

subsection \<open>The helper\<close>

text \<open>The fields \<^verbatim>\<open>dserv\<close>, \<^verbatim>\<open>fullPath\<close> and \<^verbatim>\<open>stat\<close> are handles that none of the
  operations below reads; \<open>batch\<close> holds the nodes staged for writing, in order.\<close>

record DagBuilderHelper =
  spl :: Splitter
  recvdErr :: "error option"
  rawLeaves :: bool
  nextData :: "bytes option"
  maxlinks :: int
  batch :: "UnixfsNode list"
  prefix :: "Prefix option"

record DagBuilderParams =
  Maxlinks :: int
  RawLeaves :: bool
  Prefix :: "Prefix option"

definition New :: "DagBuilderParams \<Rightarrow> Splitter \<Rightarrow> DagBuilderHelper" where
  "New dbp s =
     \<lparr>spl = s, recvdErr = None, rawLeaves = RawLeaves dbp, nextData = None,
      maxlinks = Maxlinks dbp, batch = [], prefix = Prefix dbp\<rparr>"

definition prepareNext :: "DagBuilderHelper \<Rightarrow> DagBuilderHelper" where
  "prepareNext db =
     (if nextData db \<noteq> None \<or> recvdErr db \<noteq> None then db
      else
        (case NextBytes (spl db) of
           ((d, e), s) \<Rightarrow>
             db\<lparr>spl := s, nextData := d,
                recvdErr := (if e = Some EOF then None else e)\<rparr>))"

definition Done :: "DagBuilderHelper \<Rightarrow> bool \<times> DagBuilderHelper" where
  "Done db =
     (let db1 = prepareNext db
      in if recvdErr db1 \<noteq> None then (False, db1)
         else (nextData db1 = None, db1))"

definition Next :: "DagBuilderHelper \<Rightarrow> (bytes option \<times> error option) \<times> DagBuilderHelper" where
  "Next db =
     (let db1 = prepareNext db;
          d = nextData db1;
          db2 = db1\<lparr>nextData := None\<rparr>
      in if recvdErr db2 \<noteq> None then ((None, recvdErr db2), db2)
         else ((d, None), db2))"

definition NewUnixfsNode :: "DagBuilderHelper \<Rightarrow> UnixfsNode" where
  "NewUnixfsNode db =
     SetPrefix
       (UnixfsNode False None (Some (ProtoNode [] None)) (Some \<lparr>Type = TFile, Data = None\<rparr>))
       (prefix db)"

definition newUnixfsBlock :: "DagBuilderHelper \<Rightarrow> UnixfsNode" where
  "newUnixfsBlock db =
     SetPrefix
       (UnixfsNode False None (Some (ProtoNode [] None)) (Some \<lparr>Type = TRaw, Data = None\<rparr>))
       (prefix db)"

definition NewLeaf :: "Env \<Rightarrow> DagBuilderHelper \<Rightarrow> bytes option \<Rightarrow> error + UnixfsNode" where
  "NewLeaf env db d =
     (if len d > BlockSizeLimit env then Inl ErrSizeLimitExceeded
      else if rawLeaves db then
        (case prefix db of
           None \<Rightarrow> Inr (UnixfsNode True (Some (NewRawNode d)) None None)
         | Some p \<Rightarrow>
             (case NewRawNodeWPrefix env d p of
                Inl err \<Rightarrow> Inl err
              | Inr rn \<Rightarrow> Inr (UnixfsNode True (Some rn) None None)))
      else if d = None then Inr (NewUnixfsNode db)
      else Inr (SetData (newUnixfsBlock db) d))"

definition GetNextDataNode ::
  "Env \<Rightarrow> DagBuilderHelper \<Rightarrow> (error + UnixfsNode option) \<times> DagBuilderHelper" where
  "GetNextDataNode env db =
     (case Next db of
        ((d, Some err), db1) \<Rightarrow> (Inl err, db1)
      | ((None, None), db1) \<Rightarrow> (Inr None, db1)
      | ((Some c, None), db1) \<Rightarrow>
          (case NewLeaf env db1 (Some c) of
             Inl err \<Rightarrow> (Inl err, db1)
           | Inr n \<Rightarrow> (Inr (Some n), db1)))"

text \<open>
  Modelled from the spec: \<^verbatim>\<open>AddChild\<close> is a method of \<^verbatim>\<open>UnixfsNode\<close>, declared in
  another file. It records the child's aggregate size, appends the child reference to
  the parent and stages the child in the write batch; a failure of the store is returned
  with the reference already appended (no rollback). A nil child, or a parent without a
  protobuf node, is a nil-pointer dereference.
\<close>

fun AddChild ::
  "Env \<Rightarrow> UnixfsNode \<Rightarrow> UnixfsNode option \<Rightarrow> DagBuilderHelper
     \<Rightarrow> error option \<times> UnixfsNode \<times> DagBuilderHelper" where
  "AddChild env n None db = (Some NilPointerDereference, n, db)"
| "AddChild env (UnixfsNode r rn None u) (Some c) db =
     (Some NilPointerDereference, UnixfsNode r rn None u, db)"
| "AddChild env (UnixfsNode r rn (Some (ProtoNode ls p)) u) (Some c) db =
     (let n' = UnixfsNode r rn (Some (ProtoNode (ls @ [Link (FileSize c) c]) p)) u
      in case put_err env (batch db) c of
           Some err \<Rightarrow> (Some err, n', db)
         | None \<Rightarrow> (None, n', db\<lparr>batch := batch db @ [c]\<rparr>))"

function FillNodeLayer ::
  "Env \<Rightarrow> DagBuilderHelper \<Rightarrow> UnixfsNode \<Rightarrow> error option \<times> DagBuilderHelper \<times> UnixfsNode" where
  "FillNodeLayer env db n =
     (if NumChildren n < maxlinks db then
        (case Done db of
           (True, db1) \<Rightarrow> (None, db1, n)
         | (False, db1) \<Rightarrow>
             (case GetNextDataNode env db1 of
                (Inl err, db2) \<Rightarrow> (Some err, db2, n)
              | (Inr child, db2) \<Rightarrow>
                  (case AddChild env n child db2 of
                     (Some err, n', db3) \<Rightarrow> (Some err, db3, n')
                   | (None, n', db3) \<Rightarrow> FillNodeLayer env db3 n')))
      else (None, db, n))"
  by pat_completeness auto
termination
proof (relation "measure (\<lambda>(env, db, n). nat (maxlinks db - NumChildren n))")
  show "wf (measure (\<lambda>(env, db, n). nat (maxlinks db - NumChildren n)))"
    by simp
next
  fix env db n dn db1 r db2 child e r3 n' db3
  assume room: "NumChildren n < maxlinks db"
    and d: "(dn, db1) = Done db"
    and g: "(r, db2) = GetNextDataNode env db1"
    and a: "(e, r3) = AddChild env n child db2" "e = None" "(n', db3) = r3"
  have p: "maxlinks (prepareNext s) = maxlinks s" for s
    by (simp add: prepareNext_def split: prod.splits)
  have "db1 = prepareNext db"
    using d by (simp add: Done_def Let_def split: if_splits)
  then have m1: "maxlinks db1 = maxlinks db"
    using p by simp
  have "db2 = (prepareNext db1)\<lparr>nextData := None\<rparr>"
    using g
    by (simp add: GetNextDataNode_def Next_def Let_def
          split: if_splits option.splits sum.splits)
  then have m2: "maxlinks db2 = maxlinks db1"
    using p by simp
  have ac: "AddChild env n child db2 = (None, n', db3)"
    using a by simp
  have "maxlinks db3 = maxlinks db2 \<and> NumChildren n' = NumChildren n + 1"
  proof (cases child)
    case None
    then show ?thesis
      using ac by simp
  next
    case (Some c)
    show ?thesis
    proof (cases n)
      case (UnixfsNode rw rn pn u)
      show ?thesis
      proof (cases pn)
        case None
        then show ?thesis
          using ac Some UnixfsNode by simp
      next
        case pn: (Some q)
        show ?thesis
          using ac Some UnixfsNode pn
          by (cases q) (auto simp: NumChildren_def Let_def split: option.splits)
      qed
    qed
  qed
  then show "((env, db3, n'), env, db, n) \<in> measure (\<lambda>(env, db, n). nat (maxlinks db - NumChildren n))"
    using room m1 m2 by simp
qed


subsection \<open>Sequences of calls\<close>

text \<open>
  The caller of the helper, a layout strategy that is not part of this file, calls its
  operations one after the other. A property of every later call is stated over the
  helper reached after an arbitrary list of calls.
\<close>

datatype call =
    CallDone
  | CallNext
  | CallGetNextDataNode
  | CallFillNodeLayer UnixfsNode

fun after_call :: "Env \<Rightarrow> DagBuilderHelper \<Rightarrow> call \<Rightarrow> DagBuilderHelper" where
  "after_call env db CallDone = snd (Done db)"
| "after_call env db CallNext = snd (Next db)"
| "after_call env db CallGetNextDataNode = snd (GetNextDataNode env db)"
| "after_call env db (CallFillNodeLayer n) = fst (snd (FillNodeLayer env db n))"

definition after_calls :: "Env \<Rightarrow> DagBuilderHelper \<Rightarrow> call list \<Rightarrow> DagBuilderHelper" where
  "after_calls env db cs = foldl (after_call env) db cs"

text \<open>
  Modelled from the spec: the caller invokes \<open>FillNodeLayer\<close> again on a new sibling
  node when a node has reached its cap. \<open>FillLayers env db k\<close> makes \<open>k\<close> successive
  calls, each on a fresh node, stops at the first error and returns the nodes in order.
\<close>

fun FillLayers ::
  "Env \<Rightarrow> DagBuilderHelper \<Rightarrow> nat \<Rightarrow> error option \<times> DagBuilderHelper \<times> UnixfsNode list" where
  "FillLayers env db 0 = (None, db, [])"
| "FillLayers env db (Suc k) =
     (case FillNodeLayer env db (NewUnixfsNode db) of
        (Some err, db1, n) \<Rightarrow> (Some err, db1, [n])
      | (None, db1, n) \<Rightarrow>
          (case FillLayers env db1 k of
             (r, db2, ns) \<Rightarrow> (r, db2, n # ns)))"

text \<open>The payloads of the children of a node, in child order, and the bytes of the
  leaves referenced by a list of nodes, node after node.\<close>

definition child_payloads :: "UnixfsNode \<Rightarrow> bytes list" where
  "child_payloads n = map (\<lambda>l. payload (Target l)) (children n)"

definition leaf_bytes :: "UnixfsNode list \<Rightarrow> bytes" where
  "leaf_bytes ns = concat (concat (map child_payloads ns))"

text \<open>
  \<open>remaining db cs\<close>: the helper has no error stored, and its buffered chunk, if any,
  followed by what its splitter still delivers, is the list of chunks \<open>cs\<close> followed by
  the end of the stream.
\<close>

definition remaining :: "DagBuilderHelper \<Rightarrow> bytes list \<Rightarrow> bool" where
  "remaining db cs \<longleftrightarrow>
     recvdErr db = None \<and>
     (case nextData db of
        None \<Rightarrow> spl db = chunk_source cs
      | Some c \<Rightarrow> (case cs of [] \<Rightarrow> False | c' # cs' \<Rightarrow> c' = c \<and> spl db = chunk_source cs'))"

text \<open>\<open>no_eof_stored db\<close>: the error the helper has stored, if any, is not \<open>EOF\<close>.\<close>

definition no_eof_stored :: "DagBuilderHelper \<Rightarrow> bool" where
  "no_eof_stored db \<longleftrightarrow> recvdErr db \<noteq> Some EOF"

subsection \<open>A small configuration for concrete runs\<close>

text \<open>A block size limit of 4 bytes, at most 2 links per node, no configured prefix and
  a store that accepts every node.\<close>

definition env4 :: Env where
  "env4 = \<lparr>BlockSizeLimit = 4, sum_err = (\<lambda>p d. None), put_err = (\<lambda>b n. None)\<rparr>"

definition params2 :: "bool \<Rightarrow> DagBuilderParams" where
  "params2 rl = \<lparr>Maxlinks = 2, RawLeaves = rl, Prefix = None\<rparr>"

definition leaf_of :: "bytes \<Rightarrow> UnixfsNode" where
  "leaf_of c = UnixfsNode False None (Some (ProtoNode [] None)) (Some \<lparr>Type = TRaw, Data = Some c\<rparr>)"

definition node_with :: "bytes list \<Rightarrow> UnixfsNode" where
  "node_with cs =
     UnixfsNode False None
       (Some (ProtoNode (map (\<lambda>c. Link (length c) (leaf_of c)) cs) None))
       (Some \<lparr>Type = TFile, Data = None\<rparr>)"

declare FillNodeLayer.simps [simp del]

section \<open>The layer filler and the cap on children\<close>

lemma maxlinks_prepareNext [simp]: "maxlinks (prepareNext db) = maxlinks db"
  by (simp add: prepareNext_def split: prod.splits)

lemma maxlinks_Done [simp]: "maxlinks (snd (Done db)) = maxlinks db"
  by (simp add: Done_def Let_def)

lemma maxlinks_Next [simp]: "maxlinks (snd (Next db)) = maxlinks db"
  by (simp add: Next_def Let_def)

lemma maxlinks_GetNextDataNode [simp]: "maxlinks (snd (GetNextDataNode env db)) = maxlinks db"
proof -
  obtain d e db1 where n: "Next db = ((d, e), db1)"
    by (metis prod.exhaust)
  have "maxlinks db1 = maxlinks db"
    using maxlinks_Next [of db] n by simp
  then show ?thesis
    by (simp add: GetNextDataNode_def n split: option.splits sum.splits)
qed

lemma maxlinks_AddChild [simp]: "maxlinks (snd (snd (AddChild env n c db))) = maxlinks db"
  by (induction env n c db rule: AddChild.induct) (simp_all add: Let_def split: option.splits)

lemma NumChildren_AddChild_ok:
  "AddChild env n c db = (None, n', db') \<Longrightarrow> NumChildren n' = NumChildren n + 1"
  by (induction env n c db rule: AddChild.induct)
     (auto simp: NumChildren_def Let_def split: option.splits)

lemma NumChildren_AddChild_le:
  "NumChildren (fst (snd (AddChild env n c db))) \<le> NumChildren n + 1"
  by (induction env n c db rule: AddChild.induct)
     (simp_all add: NumChildren_def Let_def split: option.splits)

lemma FillNodeLayer_no_room:
  "\<not> NumChildren n < maxlinks db \<Longrightarrow> FillNodeLayer env db n = (None, db, n)"
  by (subst FillNodeLayer.simps) simp

text \<open>
  C10: a node that already holds at least \<open>maxlinks\<close> children when \<open>FillNodeLayer\<close>
  is called is returned as it is, with no error; the helper, and with it the lookahead
  buffer and the splitter, is returned unchanged: nothing is pulled or consumed.
\<close>

theorem FillNodeLayer_full_node:
  "maxlinks db \<le> NumChildren n \<Longrightarrow> FillNodeLayer env db n = (None, db, n)"
  by (subst FillNodeLayer.simps) simp

theorem FillNodeLayer_full_node_witness:
  "maxlinks (New (params2 False) (chunk_source [''IJ''])) \<le> NumChildren (node_with [''ABCD'', ''EFGH''])
   \<and> FillNodeLayer env4 (New (params2 False) (chunk_source [''IJ''])) (node_with [''ABCD'', ''EFGH''])
       = (None, New (params2 False) (chunk_source [''IJ'']), node_with [''ABCD'', ''EFGH''])"
proof -
  have h: "maxlinks (New (params2 False) (chunk_source [''IJ''])) \<le> NumChildren (node_with [''ABCD'', ''EFGH''])"
    by (simp add: New_def params2_def node_with_def NumChildren_def)
  show ?thesis
    using h FillNodeLayer_full_node [OF h, of env4] by simp
qed

lemma FillNodeLayer_done:
  "NumChildren n < maxlinks db \<Longrightarrow> Done db = (True, db1) \<Longrightarrow>
     FillNodeLayer env db n = (None, db1, n)"
  by (subst FillNodeLayer.simps) simp

lemma FillNodeLayer_no_leaf:
  "NumChildren n < maxlinks db \<Longrightarrow> Done db = (False, db1) \<Longrightarrow>
     GetNextDataNode env db1 = (Inl err, db2) \<Longrightarrow>
     FillNodeLayer env db n = (Some err, db2, n)"
  by (subst FillNodeLayer.simps) simp

lemma FillNodeLayer_add_failed:
  "NumChildren n < maxlinks db \<Longrightarrow> Done db = (False, db1) \<Longrightarrow>
     GetNextDataNode env db1 = (Inr child, db2) \<Longrightarrow>
     AddChild env n child db2 = (Some err, n', db3) \<Longrightarrow>
     FillNodeLayer env db n = (Some err, db3, n')"
  by (subst FillNodeLayer.simps) simp

lemma FillNodeLayer_step:
  "NumChildren n < maxlinks db \<Longrightarrow> Done db = (False, db1) \<Longrightarrow>
     GetNextDataNode env db1 = (Inr child, db2) \<Longrightarrow>
     AddChild env n child db2 = (None, n', db3) \<Longrightarrow>
     FillNodeLayer env db n = FillNodeLayer env db3 n'"
  by (subst FillNodeLayer.simps) simp

lemma FillNodeLayer_preserves:
  assumes "\<And>s. P s \<Longrightarrow> P (snd (Done s))"
    and "\<And>s. P s \<Longrightarrow> P (snd (GetNextDataNode env s))"
    and "\<And>s m c. P s \<Longrightarrow> P (snd (snd (AddChild env m c s)))"
    and "P db"
  shows "P (fst (snd (FillNodeLayer env db n)))"
  using assms
proof (induction env db n rule: FillNodeLayer.induct)
  case (1 env db n)
  note dn = "1.prems"(1) and gn = "1.prems"(2) and ac = "1.prems"(3) and start = "1.prems"(4)
  show ?case
  proof (cases "NumChildren n < maxlinks db")
    case False
    then show ?thesis
      using start by (simp add: FillNodeLayer_no_room)
  next
    case room: True
    obtain b db1 where d: "Done db = (b, db1)"
      by (cases "Done db")
    obtain r db2 where g: "GetNextDataNode env db1 = (r, db2)"
      by (cases "GetNextDataNode env db1")
    have p1: "P db1"
      using dn [OF start] d by simp
    have p2: "P db2"
      using gn [OF p1] g by simp
    show ?thesis
    proof (cases b)
      case True
      then show ?thesis
        using FillNodeLayer_done [OF room, of db1 env] d p1 by simp
    next
      case b: False
      show ?thesis
      proof (cases r)
        case (Inl err)
        then show ?thesis
          using FillNodeLayer_no_leaf [OF room, of db1 env err db2] d b g p2 by simp
      next
        case r: (Inr child)
        obtain e n' db3 where a: "AddChild env n child db2 = (e, n', db3)"
          by (cases "AddChild env n child db2")
        have p3: "P db3"
          using ac [OF p2, of n child] a by simp
        show ?thesis
        proof (cases e)
          case (Some err)
          have "FillNodeLayer env db n = (Some err, db3, n')"
            using FillNodeLayer_add_failed [OF room] d b g r a Some by simp
          then show ?thesis
            using p3 by simp
        next
          case None
          have "P (fst (snd (FillNodeLayer env db3 n')))"
            using "1.IH" [OF room d [symmetric] _ g [symmetric] r _ None refl dn gn ac p3] b a
            by simp
          moreover have "FillNodeLayer env db n = FillNodeLayer env db3 n'"
            using FillNodeLayer_step [OF room] d b g r a None by simp
          ultimately show ?thesis
            by simp
        qed
      qed
    qed
  qed
qed

lemma maxlinks_FillNodeLayer: "maxlinks (fst (snd (FillNodeLayer env db n))) = maxlinks db"
  by (rule FillNodeLayer_preserves [where P = "\<lambda>s. maxlinks s = maxlinks db"]) simp_all

text \<open>
  C1: a node that holds at most \<open>maxlinks\<close> children when \<open>FillNodeLayer\<close> is called
  holds at most \<open>maxlinks\<close> children when it returns, with an error or without one and
  whatever the splitter still has to deliver.
\<close>

theorem FillNodeLayer_cap:
  "NumChildren n \<le> maxlinks db \<Longrightarrow>
     NumChildren (snd (snd (FillNodeLayer env db n))) \<le> maxlinks db"
proof (induction env db n rule: FillNodeLayer.induct)
  case (1 env db n)
  show ?case
  proof (cases "NumChildren n < maxlinks db")
    case False
    then show ?thesis
      using "1.prems" by (simp add: FillNodeLayer_no_room)
  next
    case room: True
    obtain dn db1 where d: "Done db = (dn, db1)"
      by (cases "Done db")
    obtain r db2 where g: "GetNextDataNode env db1 = (r, db2)"
      by (cases "GetNextDataNode env db1")
    show ?thesis
    proof (cases dn)
      case True
      then show ?thesis
        using "1.prems" FillNodeLayer_done [OF room, of db1 env] d by simp
    next
      case dn: False
      show ?thesis
      proof (cases r)
        case (Inl err)
        then show ?thesis
          using "1.prems" FillNodeLayer_no_leaf [OF room, of db1 env err db2] d dn g by simp
      next
        case r: (Inr child)
        obtain e n' db3 where a: "AddChild env n child db2 = (e, n', db3)"
          by (cases "AddChild env n child db2")
        have le: "NumChildren n' \<le> NumChildren n + 1"
          using NumChildren_AddChild_le [of env n child db2] a by simp
        show ?thesis
        proof (cases e)
          case (Some err)
          have "FillNodeLayer env db n = (Some err, db3, n')"
            using FillNodeLayer_add_failed [OF room] d dn g r a Some by simp
          then show ?thesis
            using room le by simp
        next
          case None
          have m1: "maxlinks db1 = maxlinks db"
            using maxlinks_Done [of db] d by simp
          have m2: "maxlinks db2 = maxlinks db1"
            using maxlinks_GetNextDataNode [of env db1] g by simp
          have m3: "maxlinks db3 = maxlinks db2"
            using maxlinks_AddChild [of env n child db2] a by simp
          have "NumChildren n' \<le> maxlinks db3"
            using le room m1 m2 m3 by simp
          then have ih: "NumChildren (snd (snd (FillNodeLayer env db3 n'))) \<le> maxlinks db3"
            using "1.IH" [OF room d [symmetric] _ g [symmetric] r _ None refl] dn a
            by simp
          have "FillNodeLayer env db n = FillNodeLayer env db3 n'"
            using FillNodeLayer_step [OF room] d dn g r a None by simp
          then show ?thesis
            using ih m1 m2 m3 by simp
        qed
      qed
    qed
  qed
qed

theorem FillNodeLayer_cap_witness:
  "NumChildren (node_with [''ABCD'']) \<le> maxlinks (New (params2 False) (chunk_source [''EFGH'', ''IJ'']))
   \<and> NumChildren (snd (snd (FillNodeLayer env4 (New (params2 False) (chunk_source [''EFGH'', ''IJ'']))
         (node_with [''ABCD'']))))
       \<le> maxlinks (New (params2 False) (chunk_source [''EFGH'', ''IJ'']))"
proof -
  have h: "NumChildren (node_with [''ABCD'']) \<le> maxlinks (New (params2 False) (chunk_source [''EFGH'', ''IJ'']))"
    by (simp add: New_def params2_def node_with_def NumChildren_def)
  show ?thesis
    using h FillNodeLayer_cap [OF h, of env4] by simp
qed

section \<open>The lookahead buffer\<close>

lemma prepareNext_full:
  "nextData db \<noteq> None \<or> recvdErr db \<noteq> None \<Longrightarrow> prepareNext db = db"
  by (simp add: prepareNext_def)

lemma prepareNext_empty:
  "nextData db = None \<Longrightarrow> recvdErr db = None \<Longrightarrow>
     prepareNext db =
       db\<lparr>spl := stl (spl db), nextData := fst (shd (spl db)),
          recvdErr := (if snd (shd (spl db)) = Some EOF then None else snd (shd (spl db)))\<rparr>"
  by (simp add: prepareNext_def NextBytes_def split: prod.splits)

lemma Done_snd: "snd (Done db) = prepareNext db"
  by (simp add: Done_def Let_def)

lemma Next_snd: "snd (Next db) = (prepareNext db)\<lparr>nextData := None\<rparr>"
  by (simp add: Next_def Let_def)

lemma GetNextDataNode_snd: "snd (GetNextDataNode env db) = snd (Next db)"
  by (cases "Next db") (auto simp: GetNextDataNode_def split: option.splits sum.splits)

lemma stl_eof_forever [simp]: "stl eof_forever = eof_forever"
  by (simp add: eof_forever_def)

lemma shd_eof_forever [simp]: "shd eof_forever = (None, Some EOF)"
  by (simp add: eof_forever_def)

section \<open>The node factory\<close>

text \<open>
  C4: a chunk longer than \<open>BlockSizeLimit\<close> makes \<open>NewLeaf\<close> fail with
  \<open>ErrSizeLimitExceeded\<close>, with raw leaves or without. A chunk of at most that length
  passes the size check: the only failure left is one of building the raw block under a
  configured prefix.
\<close>

theorem NewLeaf_size_limit:
  "(BlockSizeLimit env < len d \<longrightarrow> NewLeaf env db d = Inl ErrSizeLimitExceeded) \<and>
   (len d \<le> BlockSizeLimit env \<longrightarrow>
      (\<forall>e. NewLeaf env db d = Inl e \<longrightarrow>
         rawLeaves db \<and> (\<exists>p. prefix db = Some p \<and> NewRawNodeWPrefix env d p = Inl e)))"
  by (auto simp: NewLeaf_def split: option.splits sum.splits)

theorem NewLeaf_size_limit_witness:
  "BlockSizeLimit env4 < len (Some ''ABCDE'')
   \<and> NewLeaf env4 (New (params2 True) eof_forever) (Some ''ABCDE'') = Inl ErrSizeLimitExceeded
   \<and> NewLeaf env4 (New (params2 False) eof_forever) (Some ''ABCDE'') = Inl ErrSizeLimitExceeded
   \<and> len (Some ''ABCD'') \<le> BlockSizeLimit env4
   \<and> \<not> isl (NewLeaf env4 (New (params2 True) eof_forever) (Some ''ABCD''))"
  using NewLeaf_size_limit [of env4 "Some ''ABCDE''" "New (params2 True) eof_forever"]
    NewLeaf_size_limit [of env4 "Some ''ABCDE''" "New (params2 False) eof_forever"]
    NewLeaf_size_limit [of env4 "Some ''ABCD''" "New (params2 True) eof_forever"]
  by (simp add: env4_def New_def params2_def isl_def)

text \<open>
  C5, as stated, promises a wrapped node tagged \<open>TRaw\<close> for every chunk that is not
  nil. The size check comes first: with a limit of 4 bytes and raw leaves disabled, a
  chunk of 5 bytes yields \<open>ErrSizeLimitExceeded\<close> and no node.
\<close>

theorem NewLeaf_oversize_counterexample:
  "\<not> rawLeaves (New (params2 False) eof_forever)
   \<and> NewLeaf env4 (New (params2 False) eof_forever) (Some ''ABCDE'') = Inl ErrSizeLimitExceeded"
  by (simp add: NewLeaf_def env4_def New_def params2_def)

text \<open>
  C5, amended: with raw leaves disabled, \<open>NewLeaf\<close> of the nil chunk returns a wrapped
  node tagged \<open>TFile\<close> that stores no bytes, and \<open>NewLeaf\<close> of a chunk that is not
  nil (possibly empty) and no longer than \<open>BlockSizeLimit\<close> returns a wrapped node
  tagged \<open>TRaw\<close> that carries exactly the bytes of the chunk; the results for the nil
  chunk and for the empty chunk differ.
\<close>

theorem NewLeaf_wrapped:
  "\<not> rawLeaves db \<Longrightarrow>
     NewLeaf env db None = Inr (NewUnixfsNode db)
     \<and> ufmt (NewUnixfsNode db) = Some \<lparr>Type = TFile, Data = None\<rparr>
     \<and> \<not> raw (NewUnixfsNode db)
     \<and> payload (NewUnixfsNode db) = []
     \<and> (length d \<le> BlockSizeLimit env \<longrightarrow>
          NewLeaf env db (Some d) = Inr (SetData (newUnixfsBlock db) (Some d))
          \<and> ufmt (SetData (newUnixfsBlock db) (Some d)) = Some \<lparr>Type = TRaw, Data = Some d\<rparr>
          \<and> \<not> raw (SetData (newUnixfsBlock db) (Some d))
          \<and> payload (SetData (newUnixfsBlock db) (Some d)) = d)
     \<and> NewLeaf env db None \<noteq> NewLeaf env db (Some [])"
  by (simp add: NewLeaf_def NewUnixfsNode_def newUnixfsBlock_def)

theorem NewLeaf_wrapped_witness:
  "\<not> rawLeaves (New (params2 False) eof_forever)
   \<and> NewLeaf env4 (New (params2 False) eof_forever) None
       = Inr (UnixfsNode False None (Some (ProtoNode [] None)) (Some \<lparr>Type = TFile, Data = None\<rparr>))
   \<and> length ''ABCD'' \<le> BlockSizeLimit env4
   \<and> NewLeaf env4 (New (params2 False) eof_forever) (Some ''ABCD'')
       = Inr (UnixfsNode False None (Some (ProtoNode [] None)) (Some \<lparr>Type = TRaw, Data = Some ''ABCD''\<rparr>))
   \<and> NewLeaf env4 (New (params2 False) eof_forever) None
       \<noteq> NewLeaf env4 (New (params2 False) eof_forever) (Some [])"
  using NewLeaf_wrapped [where db = "New (params2 False) eof_forever" and d = "''ABCD''" and env = env4]
    NewLeaf_wrapped [where db = "New (params2 False) eof_forever" and d = "[]" and env = env4]
  by (simp add: env4_def New_def params2_def NewUnixfsNode_def newUnixfsBlock_def)

section \<open>A pending error and the end of the stream\<close>

lemma Done_full:
  "nextData db \<noteq> None \<or> recvdErr db \<noteq> None \<Longrightarrow> Done db = (False, db)"
  by (auto simp: Done_def prepareNext_full)

lemma Next_error_pending:
  "recvdErr db = Some e \<Longrightarrow> Next db = ((None, Some e), db\<lparr>nextData := None\<rparr>)"
  by (simp add: Next_def prepareNext_full)

lemma GetNextDataNode_error_pending:
  "recvdErr db = Some e \<Longrightarrow> GetNextDataNode env db = (Inl e, db\<lparr>nextData := None\<rparr>)"
  by (simp add: GetNextDataNode_def Next_error_pending)

lemma FillNodeLayer_error_pending:
  assumes "recvdErr db = Some e"
  shows "FillNodeLayer env db n =
           (if NumChildren n < maxlinks db then (Some e, db\<lparr>nextData := None\<rparr>, n)
            else (None, db, n))"
proof (cases "NumChildren n < maxlinks db")
  case True
  have d: "Done db = (False, db)"
    using assms by (simp add: Done_full)
  show ?thesis
    using True FillNodeLayer_no_leaf [OF True d GetNextDataNode_error_pending [OF assms]]
    by simp
next
  case False
  then show ?thesis
    by (simp add: FillNodeLayer_no_room)
qed

lemma after_call_error_pending:
  "recvdErr db = Some e \<Longrightarrow>
     after_call env db c = db \<or> after_call env db c = db\<lparr>nextData := None\<rparr>"
  by (cases c)
     (simp_all add: Done_full Next_error_pending GetNextDataNode_error_pending
        FillNodeLayer_error_pending)

lemma after_call_error_cleared:
  assumes "recvdErr db = Some e" "nextData db = None"
  shows "after_call env db c = db"
proof -
  have "db\<lparr>nextData := None\<rparr> = db"
    using assms(2) by (cases db) simp
  then show ?thesis
    using after_call_error_pending [OF assms(1), of env c] by auto
qed

lemma after_calls_error_cleared:
  "recvdErr db = Some e \<Longrightarrow> nextData db = None \<Longrightarrow> after_calls env db cs = db"
  by (induction cs) (simp_all add: after_calls_def after_call_error_cleared)

lemma prepareNext_failure:
  assumes "nextData db = None" "recvdErr db = None" "snd (shd (spl db)) = Some e" "e \<noteq> EOF"
  shows "recvdErr (prepareNext db) = Some e"
    and "spl (prepareNext db) = stl (spl db)"
    and "nextData (prepareNext db) = fst (shd (spl db))"
    and "batch (prepareNext db) = batch db"
  using assms by (simp_all add: prepareNext_empty)


text \<open>
  C3, as stated, has the error cleared once \<open>Next\<close> has returned it, and the buffer
  refilled from scratch by the next call. \<open>Next\<close> never resets \<open>recvdErr\<close>: with a
  splitter that fails once and would deliver a chunk afterwards, the error is still
  stored after the first \<open>Next\<close>, the second \<open>Next\<close> returns it again, and the
  splitter is not asked again.
\<close>

theorem Next_error_not_cleared_counterexample:
  "fst (Next (New (params2 False) ((None, Some (Failure ''read'')) ## chunk_source [''A''])))
     = (None, Some (Failure ''read''))
   \<and> recvdErr (snd (Next (New (params2 False)
         ((None, Some (Failure ''read'')) ## chunk_source [''A''])))) = Some (Failure ''read'')
   \<and> fst (Next (snd (Next (New (params2 False)
         ((None, Some (Failure ''read'')) ## chunk_source [''A''])))))
     = (None, Some (Failure ''read''))
   \<and> spl (snd (Next (snd (Next (New (params2 False)
         ((None, Some (Failure ''read'')) ## chunk_source [''A''])))))) = chunk_source [''A'']"
  by (simp add: Next_def prepareNext_def NextBytes_def New_def params2_def Let_def)

text \<open>
  C3, amended: when the splitter answers a pull with an error other than \<open>EOF\<close>, every
  later call of \<open>Next\<close> returns that error and no chunk, however many calls of the
  helper come before it; the error stays stored, the splitter is not asked again, and no
  chunk is produced after the failure.
\<close>

theorem Next_error_sticky:
  assumes "nextData db = None" and "recvdErr db = None"
    and "snd (shd (spl db)) = Some e" and "e \<noteq> EOF"
  shows "fst (Next (after_calls env db cs)) = (None, Some e)
         \<and> recvdErr (snd (Next (after_calls env db cs))) = Some e
         \<and> spl (snd (Next (after_calls env db cs))) = stl (spl db)"
proof -
  define db1 where "db1 = prepareNext db"
  define db2 where "db2 = db1\<lparr>nextData := None\<rparr>"
  have e1: "recvdErr db1 = Some e" and s1: "spl db1 = stl (spl db)"
    using prepareNext_failure [OF assms] by (simp_all add: db1_def)
  have e2: "recvdErr db2 = Some e" and s2: "spl db2 = stl (spl db)" and n2: "nextData db2 = None"
    using e1 s1 by (simp_all add: db2_def)
  have p1: "prepareNext db1 = db1"
    using e1 by (simp add: prepareNext_full)
  have nx: "Next db = ((None, Some e), db2)"
    using e1 by (simp add: Next_def Let_def db1_def [symmetric] db2_def)
  have dn: "Done db = (False, db1)"
    using e1 by (simp add: Done_def Let_def db1_def [symmetric])
  have gn: "GetNextDataNode env db = (Inl e, db2)"
    by (simp add: GetNextDataNode_def nx)
  have fl: "fst (snd (FillNodeLayer env db n)) = db \<or> fst (snd (FillNodeLayer env db n)) = db2" for n
  proof (cases "NumChildren n < maxlinks db")
    case True
    have "GetNextDataNode env db1 = (Inl e, db2)"
      using GetNextDataNode_error_pending [OF e1] by (simp add: db2_def)
    then show ?thesis
      using FillNodeLayer_no_leaf [OF True dn] by simp
  next
    case False
    then show ?thesis
      by (simp add: FillNodeLayer_no_room)
  qed
  have step0: "after_call env db c \<in> {db, db1, db2}" for c
    using fl by (cases c) (auto simp: nx dn gn)
  have step1: "after_call env db1 c \<in> {db, db1, db2}" for c
    using after_call_error_pending [OF e1, of env c] by (auto simp: db2_def)
  have step2: "after_call env db2 c \<in> {db, db1, db2}" for c
    using after_call_error_cleared [OF e2 n2, of env c] by simp
  have reach: "s \<in> {db, db1, db2} \<Longrightarrow> foldl (after_call env) s cs \<in> {db, db1, db2}" for s
  proof (induction cs arbitrary: s)
    case Nil
    then show ?case by simp
  next
    case (Cons c cs)
    have "after_call env s c \<in> {db, db1, db2}"
      using Cons.prems step0 step1 step2 by auto
    then show ?case
      using Cons.IH by simp
  qed
  have r: "after_calls env db cs \<in> {db, db1, db2}"
    using reach [of db] by (simp add: after_calls_def)
  have "Next s = ((None, Some e), db2)" if "s \<in> {db, db1, db2}" for s
    using that nx Next_error_pending [OF e1] Next_error_pending [OF e2] n2
    by (auto simp: db2_def)
  then show ?thesis
    using r e2 s2 by simp
qed

theorem Next_error_sticky_witness:
  "nextData (New (params2 False) ((None, Some (Failure ''read'')) ## chunk_source [''A''])) = None
   \<and> recvdErr (New (params2 False) ((None, Some (Failure ''read'')) ## chunk_source [''A''])) = None
   \<and> snd (shd (spl (New (params2 False) ((None, Some (Failure ''read'')) ## chunk_source [''A'']))))
       = Some (Failure ''read'')
   \<and> Failure ''read'' \<noteq> EOF
   \<and> fst (Next (after_calls env4
         (New (params2 False) ((None, Some (Failure ''read'')) ## chunk_source [''A'']))
         [CallNext, CallDone, CallNext])) = (None, Some (Failure ''read''))"
  using Next_error_sticky [of "New (params2 False) ((None, Some (Failure ''read'')) ## chunk_source [''A''])"
      "Failure ''read''" env4 "[CallNext, CallDone, CallNext]"]
  by (simp add: New_def params2_def)


text \<open>
  C9: when one pull of the splitter returns a chunk together with an error other than
  \<open>EOF\<close>, both are stored, and the next call of \<open>Next\<close> returns the error without
  the chunk and empties the buffer. The helper it leaves is the same after every later
  call: \<open>GetNextDataNode\<close> returns the error and no node, \<open>FillNodeLayer\<close> returns
  every node as it was given, and nothing is staged in the batch. The bytes of the chunk
  reach no leaf.
\<close>

theorem chunk_with_error_discarded:
  assumes "nextData db = None" and "recvdErr db = None"
    and "shd (spl db) = (Some c, Some e)" and "e \<noteq> EOF"
  shows "nextData (prepareNext db) = Some c
         \<and> Next (prepareNext db) = Next db
         \<and> fst (Next db) = (None, Some e)
         \<and> nextData (snd (Next db)) = None
         \<and> batch (snd (Next db)) = batch db
         \<and> after_calls env (snd (Next db)) cs = snd (Next db)
         \<and> fst (GetNextDataNode env (snd (Next db))) = Inl e
         \<and> snd (snd (FillNodeLayer env (snd (Next db)) n)) = n"
proof -
  define db1 where "db1 = prepareNext db"
  define db2 where "db2 = db1\<lparr>nextData := None\<rparr>"
  have se: "snd (shd (spl db)) = Some e"
    using assms(3) by simp
  have e1: "recvdErr db1 = Some e" and n1: "nextData db1 = Some c" and b1: "batch db1 = batch db"
    using prepareNext_failure [OF assms(1,2) se assms(4)] assms(3) by (simp_all add: db1_def)
  have e2: "recvdErr db2 = Some e" and n2: "nextData db2 = None" and b2: "batch db2 = batch db"
    using e1 b1 by (simp_all add: db2_def)
  have nx: "Next db = ((None, Some e), db2)"
    using e1 by (simp add: Next_def Let_def db1_def [symmetric] db2_def)
  have nx1: "Next db1 = ((None, Some e), db2)"
    using Next_error_pending [OF e1] by (simp add: db2_def)
  have same: "db2\<lparr>nextData := None\<rparr> = db2"
    by (simp add: db2_def)
  have g: "GetNextDataNode env db2 = (Inl e, db2)"
    using GetNextDataNode_error_pending [OF e2, of env] same by simp
  have f: "snd (snd (FillNodeLayer env db2 n)) = n"
    using FillNodeLayer_error_pending [OF e2, of env n] by simp
  show ?thesis
    using n1 nx nx1 n2 b2 g f after_calls_error_cleared [OF e2 n2, of env cs]
    by (simp add: db1_def [symmetric])
qed

theorem chunk_with_error_discarded_witness:
  "nextData (New (params2 False) ((Some ''ABCD'', Some (Failure ''read'')) ## eof_forever)) = None
   \<and> recvdErr (New (params2 False) ((Some ''ABCD'', Some (Failure ''read'')) ## eof_forever)) = None
   \<and> shd (spl (New (params2 False) ((Some ''ABCD'', Some (Failure ''read'')) ## eof_forever)))
       = (Some ''ABCD'', Some (Failure ''read''))
   \<and> Failure ''read'' \<noteq> EOF
   \<and> fst (Next (New (params2 False) ((Some ''ABCD'', Some (Failure ''read'')) ## eof_forever)))
       = (None, Some (Failure ''read''))
   \<and> fst (GetNextDataNode env4
        (snd (Next (New (params2 False) ((Some ''ABCD'', Some (Failure ''read'')) ## eof_forever)))))
       = Inl (Failure ''read'')"
  using chunk_with_error_discarded
    [of "New (params2 False) ((Some ''ABCD'', Some (Failure ''read'')) ## eof_forever)"
      "''ABCD''" "Failure ''read''" env4 "[]" "node_with []"]
  by (simp add: New_def params2_def)

section \<open>The end of the stream\<close>

lemma prepareNext_exhausted:
  assumes "nextData db = None" and "recvdErr db = None" and "spl db = eof_forever"
  shows "prepareNext db = db"
proof -
  have "prepareNext db = db\<lparr>spl := eof_forever, nextData := None, recvdErr := None\<rparr>"
    using assms by (simp add: prepareNext_empty)
  also have "\<dots> = db"
    using assms by (cases db) simp
  finally show ?thesis .
qed

lemma Done_exhausted:
  assumes "nextData db = None" and "recvdErr db = None" and "spl db = eof_forever"
  shows "Done db = (True, db)"
  using assms by (simp add: Done_def Let_def prepareNext_exhausted)

lemma Next_exhausted:
  assumes "nextData db = None" and "recvdErr db = None" and "spl db = eof_forever"
  shows "Next db = ((None, None), db)"
proof -
  have "db\<lparr>nextData := None\<rparr> = db"
    using assms(1) by (cases db) simp
  then show ?thesis
    using assms by (simp add: Next_def Let_def prepareNext_exhausted)
qed

lemma GetNextDataNode_exhausted:
  assumes "nextData db = None" and "recvdErr db = None" and "spl db = eof_forever"
  shows "GetNextDataNode env db = (Inr None, db)"
  by (simp add: GetNextDataNode_def Next_exhausted [OF assms])

lemma FillNodeLayer_exhausted:
  assumes "nextData db = None" and "recvdErr db = None" and "spl db = eof_forever"
  shows "FillNodeLayer env db n = (None, db, n)"
proof (cases "NumChildren n < maxlinks db")
  case True
  show ?thesis
    using FillNodeLayer_done [OF True Done_exhausted [OF assms]] .
next
  case False
  then show ?thesis
    by (simp add: FillNodeLayer_no_room)
qed

lemma after_calls_exhausted:
  assumes "nextData db = None" and "recvdErr db = None" and "spl db = eof_forever"
  shows "after_calls env db cs = db"
proof -
  have "after_call env db c = db" for c
    by (cases c)
       (simp_all add: Done_exhausted [OF assms] Next_exhausted [OF assms]
          GetNextDataNode_exhausted [OF assms] FillNodeLayer_exhausted [OF assms])
  then show ?thesis
    by (induction cs) (simp_all add: after_calls_def)
qed

lemma Done_True_empty:
  assumes "Done db = (True, db1)"
  shows "nextData db1 = None \<and> recvdErr db1 = None"
  using assms by (auto simp: Done_def Let_def split: if_splits)

lemma no_eof_prepareNext: "no_eof_stored db \<Longrightarrow> no_eof_stored (prepareNext db)"
  by (simp add: no_eof_stored_def prepareNext_def NextBytes_def split: prod.splits)

lemma no_eof_Done: "no_eof_stored db \<Longrightarrow> no_eof_stored (snd (Done db))"
  by (simp add: Done_snd no_eof_prepareNext)

lemma no_eof_Next: "no_eof_stored db \<Longrightarrow> no_eof_stored (snd (Next db))"
  using no_eof_prepareNext [of db] by (simp add: Next_snd no_eof_stored_def)

lemma no_eof_AddChild: "no_eof_stored db \<Longrightarrow> no_eof_stored (snd (snd (AddChild env n c db)))"
  by (induction env n c db rule: AddChild.induct)
     (simp_all add: no_eof_stored_def Let_def split: option.splits)

lemma no_eof_after_call: "no_eof_stored db \<Longrightarrow> no_eof_stored (after_call env db c)"
proof (cases c)
  case (CallFillNodeLayer n)
  assume "no_eof_stored db"
  then have "no_eof_stored (fst (snd (FillNodeLayer env db n)))"
    by (intro FillNodeLayer_preserves [where P = no_eof_stored])
       (simp_all add: no_eof_Done GetNextDataNode_snd no_eof_Next no_eof_AddChild)
  then show ?thesis
    using CallFillNodeLayer by simp
qed (simp_all add: no_eof_Done no_eof_Next GetNextDataNode_snd)

lemma no_eof_after_calls: "no_eof_stored db \<Longrightarrow> no_eof_stored (after_calls env db cs)"
  unfolding after_calls_def
  by (induction cs arbitrary: db) (simp_all add: no_eof_after_call)

lemma Next_never_EOF: "no_eof_stored db \<Longrightarrow> snd (fst (Next db)) \<noteq> Some EOF"
  using no_eof_prepareNext [of db]
  by (simp add: Next_def Let_def no_eof_stored_def)

text \<open>
  C7, as stated, promises no chunk and no error from every call of \<open>Next\<close> after
  \<open>Done\<close> has returned true. The helper does not record that the stream has ended: a
  later call pulls from the splitter again. With a splitter that reports \<open>EOF\<close> and
  then delivers a chunk, \<open>Done\<close> returns true and the next \<open>Next\<close> returns the chunk.
\<close>

theorem Next_after_Done_counterexample:
  "fst (Done (New (params2 False) ((None, Some EOF) ## chunk_source [''A''])))
   \<and> fst (Next (snd (Done (New (params2 False) ((None, Some EOF) ## chunk_source [''A''])))))
       = (Some ''A'', None)"
  by (simp add: Done_def Next_def prepareNext_def NextBytes_def New_def params2_def Let_def
        chunk_source_def)

text \<open>
  C7, amended: \<open>Next\<close> never returns \<open>EOF\<close> as its error, whatever the splitter
  answers and whatever calls were made since the helper was created. Once \<open>Done\<close> has
  returned true, and provided the splitter reports \<open>EOF\<close> on every later pull, every
  later call of \<open>Next\<close> returns no chunk and no error, every later call of
  \<open>GetNextDataNode\<close> returns no node and no error, and \<open>Done\<close> keeps returning
  true, however many calls are made.
\<close>

theorem end_of_stream_is_no_error:
  "snd (fst (Next (after_calls env (New dbp s) cs))) \<noteq> Some EOF
   \<and> (Done db = (True, db1) \<and> spl db1 = eof_forever \<longrightarrow>
        fst (Next (after_calls env db1 cs)) = (None, None)
        \<and> fst (GetNextDataNode env (after_calls env db1 cs)) = Inr None
        \<and> fst (Done (after_calls env db1 cs)))"
proof -
  have "no_eof_stored (New dbp s)"
    by (simp add: no_eof_stored_def New_def)
  then have first: "snd (fst (Next (after_calls env (New dbp s) cs))) \<noteq> Some EOF"
    by (intro Next_never_EOF no_eof_after_calls)
  have second: "fst (Next (after_calls env db1 cs)) = (None, None)
        \<and> fst (GetNextDataNode env (after_calls env db1 cs)) = Inr None
        \<and> fst (Done (after_calls env db1 cs))"
    if d: "Done db = (True, db1)" and s: "spl db1 = eof_forever"
  proof -
    have n: "nextData db1 = None" and e: "recvdErr db1 = None"
      using Done_True_empty [OF d] by simp_all
    have "after_calls env db1 cs = db1"
      using after_calls_exhausted [OF n e s] .
    then show ?thesis
      using Next_exhausted [OF n e s] GetNextDataNode_exhausted [OF n e s, of env]
        Done_exhausted [OF n e s]
      by simp
  qed
  show ?thesis
    using first second by blast
qed

theorem end_of_stream_is_no_error_witness:
  "Done (New (params2 False) (chunk_source [])) = (True, New (params2 False) eof_forever)
   \<and> spl (New (params2 False) eof_forever) = eof_forever
   \<and> fst (Next (after_calls env4 (New (params2 False) eof_forever)
        [CallNext, CallGetNextDataNode, CallNext])) = (None, None)
   \<and> fst (GetNextDataNode env4 (after_calls env4 (New (params2 False) eof_forever)
        [CallNext, CallGetNextDataNode, CallNext])) = Inr None"
proof -
  have d: "Done (New (params2 False) (chunk_source [])) = (True, New (params2 False) eof_forever)"
    by (simp add: Done_def Let_def prepareNext_def NextBytes_def New_def params2_def
          chunk_source_def)
  have s: "spl (New (params2 False) eof_forever) = eof_forever"
    by (simp add: New_def)
  show ?thesis
    using d s end_of_stream_is_no_error
      [of env4 "params2 False" eof_forever "[CallNext, CallGetNextDataNode, CallNext]"
        "New (params2 False) (chunk_source [])" "New (params2 False) eof_forever"]
    by simp
qed

section \<open>Repeated calls of Done\<close>

lemma Done_False_full:
  "\<not> fst (Done db) \<Longrightarrow> nextData (prepareNext db) \<noteq> None \<or> recvdErr (prepareNext db) \<noteq> None"
  by (auto simp: Done_def Let_def split: if_splits)

lemma Next_prepareNext:
  "prepareNext (prepareNext db) = prepareNext db \<Longrightarrow> Next (prepareNext db) = Next db"
  by (simp add: Next_def)

lemma funpow_fixed: "f x = x \<Longrightarrow> (f ^^ k) x = x"
  by (induction k) simp_all

text \<open>
  C6, as stated, holds of every buffer state. With an empty buffer each call of \<open>Done\<close>
  pulls from the splitter, and the helper does not record that the stream has ended.
  With a splitter that reports \<open>EOF\<close> and then delivers a chunk, the first \<open>Done\<close>
  returns true and the second false, and \<open>Next\<close> returns nothing when called at once
  but the chunk when called after one \<open>Done\<close>.
\<close>

theorem Done_twice_counterexample:
  "fst (Done (New (params2 False) ((None, Some EOF) ## chunk_source [''A''])))
   \<and> \<not> fst (Done (snd (Done (New (params2 False) ((None, Some EOF) ## chunk_source [''A''])))))
   \<and> fst (Next (New (params2 False) ((None, Some EOF) ## chunk_source [''A''])))
       = (None, None)
   \<and> fst (Next (snd (Done (New (params2 False) ((None, Some EOF) ## chunk_source [''A''])))))
       = (Some ''A'', None)"
  by (simp add: Done_def Next_def prepareNext_def NextBytes_def New_def params2_def Let_def
        chunk_source_def)

text \<open>
  C6, amended: provided that, when the first call of \<open>Done\<close> returns true, the splitter
  reports \<open>EOF\<close> on every later pull, calling \<open>Done\<close> any number of times in a row
  yields the same boolean every time, returns the helper unchanged (the buffered chunk is
  not consumed) whenever a chunk is buffered or an error is pending, and does not change
  what the following call of \<open>Next\<close> returns.
\<close>

theorem Done_idempotent:
  assumes "fst (Done db) \<longrightarrow> spl (snd (Done db)) = eof_forever"
  shows "fst (Done (((\<lambda>s. snd (Done s)) ^^ k) db)) = fst (Done db)
         \<and> (nextData db \<noteq> None \<or> recvdErr db \<noteq> None \<longrightarrow> ((\<lambda>s. snd (Done s)) ^^ k) db = db)
         \<and> Next (((\<lambda>s. snd (Done s)) ^^ k) db) = Next db"
proof -
  define db1 where "db1 = prepareNext db"
  have d: "Done db = (fst (Done db), db1)"
    by (simp add: db1_def Done_def Let_def)
  have fixed: "Done db1 = (fst (Done db), db1)"
  proof (cases "fst (Done db)")
    case True
    then have "Done db = (True, db1)"
      using d by simp
    then have "nextData db1 = None" and "recvdErr db1 = None"
      using Done_True_empty by blast+
    moreover have "spl db1 = eof_forever"
      using assms True by (simp add: Done_snd db1_def)
    ultimately show ?thesis
      using True by (simp add: Done_exhausted)
  next
    case False
    then show ?thesis
      using Done_False_full [of db] by (simp add: db1_def Done_full)
  qed
  have p1: "prepareNext db1 = db1"
    using fixed Done_snd [of db1] by simp
  have n1: "Next db1 = Next db"
    using p1 Next_prepareNext [of db] by (simp add: db1_def)
  have full: "db1 = db" if "nextData db \<noteq> None \<or> recvdErr db \<noteq> None"
    using that by (simp add: db1_def prepareNext_full)
  show ?thesis
  proof (cases k)
    case 0
    then show ?thesis by simp
  next
    case (Suc j)
    have "(\<lambda>s. snd (Done s)) db1 = db1"
      using fixed by simp
    then have "((\<lambda>s. snd (Done s)) ^^ j) db1 = db1"
      by (rule funpow_fixed)
    moreover have "((\<lambda>s. snd (Done s)) ^^ k) db = ((\<lambda>s. snd (Done s)) ^^ j) (snd (Done db))"
      using Suc by (simp del: funpow.simps add: funpow_Suc_right)
    ultimately have "((\<lambda>s. snd (Done s)) ^^ k) db = db1"
      using d by (simp add: Done_snd db1_def)
    then show ?thesis
      using fixed n1 full by auto
  qed
qed

theorem Done_idempotent_witness:
  "fst (Done (New (params2 False) (chunk_source [])))
   \<and> spl (snd (Done (New (params2 False) (chunk_source [])))) = eof_forever
   \<and> fst (Done (((\<lambda>s. snd (Done s)) ^^ 3) (New (params2 False) (chunk_source []))))
   \<and> \<not> fst (Done (New (params2 False) (chunk_source [''AB''])))
   \<and> \<not> fst (Done (((\<lambda>s. snd (Done s)) ^^ 3) (New (params2 False) (chunk_source [''AB'']))))
   \<and> fst (Next (((\<lambda>s. snd (Done s)) ^^ 3) (New (params2 False) (chunk_source [''AB'']))))
       = (Some ''AB'', None)"
proof -
  have h0: "fst (Done (New (params2 False) (chunk_source []))) \<longrightarrow>
      spl (snd (Done (New (params2 False) (chunk_source [])))) = eof_forever"
    by (simp add: Done_def Let_def prepareNext_def NextBytes_def New_def params2_def
          chunk_source_def)
  have t0: "fst (Done (New (params2 False) (chunk_source [])))"
    by (simp add: Done_def Let_def prepareNext_def NextBytes_def New_def params2_def
          chunk_source_def)
  have h1: "fst (Done (New (params2 False) (chunk_source [''AB'']))) \<longrightarrow>
      spl (snd (Done (New (params2 False) (chunk_source [''AB''])))) = eof_forever"
    by (simp add: Done_def Let_def prepareNext_def NextBytes_def New_def params2_def
          chunk_source_def)
  have t1: "\<not> fst (Done (New (params2 False) (chunk_source [''AB''])))"
    by (simp add: Done_def Let_def prepareNext_def NextBytes_def New_def params2_def
          chunk_source_def)
  have n1: "fst (Next (New (params2 False) (chunk_source [''AB'']))) = (Some ''AB'', None)"
    by (simp add: Next_def Let_def prepareNext_def NextBytes_def New_def params2_def
          chunk_source_def)
  show ?thesis
    using h0 t0 h1 t1 n1
      Done_idempotent [OF h0, of 3] Done_idempotent [OF h1, of 3]
    by simp
qed

section \<open>Filling layers from a stream of chunks\<close>

lemma chunk_source_Nil [simp]: "chunk_source [] = eof_forever"
  by (simp add: chunk_source_def)

lemma shd_chunk_source_Cons [simp]: "shd (chunk_source (c # cs)) = (Some c, None)"
  by (simp add: chunk_source_def)

lemma stl_chunk_source_Cons [simp]: "stl (chunk_source (c # cs)) = chunk_source cs"
  by (simp add: chunk_source_def)

lemma remaining_New: "remaining (New dbp (chunk_source cs)) cs"
  by (simp add: remaining_def New_def)

lemma remaining_prepareNext:
  assumes "remaining db cs"
  shows "remaining (prepareNext db) cs"
    and "nextData (prepareNext db) = (case cs of [] \<Rightarrow> None | c # cs' \<Rightarrow> Some c)"
    and "recvdErr (prepareNext db) = None"
proof -
  show "remaining (prepareNext db) cs"
  proof (cases "nextData db")
    case (Some c)
    then show ?thesis
      using assms by (simp add: prepareNext_full)
  next
    case None
    then show ?thesis
      using assms by (cases cs) (simp_all add: remaining_def prepareNext_empty)
  qed
  then show "nextData (prepareNext db) = (case cs of [] \<Rightarrow> None | c # cs' \<Rightarrow> Some c)"
    using assms
    by (cases "nextData db"; cases cs)
       (simp_all add: remaining_def prepareNext_empty prepareNext_full)
  show "recvdErr (prepareNext db) = None"
    using \<open>remaining (prepareNext db) cs\<close> by (simp add: remaining_def)
qed

lemma remaining_Done:
  assumes "remaining db cs"
  shows "Done db = (cs = [], prepareNext db)"
  using remaining_prepareNext [OF assms]
  by (cases cs) (simp_all add: Done_def Let_def)

lemma remaining_taken:
  assumes "remaining db (c # cs)"
  shows "remaining ((prepareNext db)\<lparr>nextData := None\<rparr>) cs"
  using remaining_prepareNext [OF assms]
  by (simp add: remaining_def)

lemma remaining_Next:
  assumes "remaining db (c # cs)"
  shows "Next db = ((Some c, None), (prepareNext db)\<lparr>nextData := None\<rparr>)"
  using remaining_prepareNext [OF assms]
  by (simp add: Next_def Let_def)

lemma remaining_GetNextDataNode:
  assumes "remaining db (c # cs)"
  shows "GetNextDataNode env db =
           (case NewLeaf env ((prepareNext db)\<lparr>nextData := None\<rparr>) (Some c) of
              Inl err \<Rightarrow> (Inl err, (prepareNext db)\<lparr>nextData := None\<rparr>)
            | Inr n \<Rightarrow> (Inr (Some n), (prepareNext db)\<lparr>nextData := None\<rparr>))"
  by (simp add: GetNextDataNode_def remaining_Next [OF assms])

lemma payload_NewLeaf:
  "NewLeaf env db (Some c) = Inr n \<Longrightarrow> payload n = c"
  by (auto simp: NewLeaf_def NewRawNode_def NewRawNodeWPrefix_def newUnixfsBlock_def
      split: if_splits option.splits sum.splits)

lemma AddChild_None_iff:
  "AddChild env n (Some c) db = (None, n', db') \<longleftrightarrow>
     (\<exists>r rn ls p u.
        n = UnixfsNode r rn (Some (ProtoNode ls p)) u
        \<and> n' = UnixfsNode r rn (Some (ProtoNode (ls @ [Link (FileSize c) c]) p)) u
        \<and> db' = db\<lparr>batch := batch db @ [c]\<rparr>
        \<and> put_err env (batch db) c = None)"
proof (cases n)
  case (UnixfsNode r rn pn u)
  show ?thesis
  proof (cases pn)
    case None
    then show ?thesis
      using UnixfsNode by simp
  next
    case (Some q)
    then show ?thesis
      using UnixfsNode by (cases q) (auto simp: Let_def split: option.splits)
  qed
qed

lemma AddChild_ok:
  assumes "AddChild env n (Some c) db = (None, n', db')"
  shows "children n' = children n @ [Link (FileSize c) c]"
    and "remaining db' cs = remaining db cs"
    and "node n' \<noteq> None"
  using assms unfolding AddChild_None_iff
  by (auto simp: remaining_def split: option.splits list.splits)


lemma child_payloads_NewUnixfsNode [simp]: "child_payloads (NewUnixfsNode db) = []"
  by (simp add: child_payloads_def NewUnixfsNode_def)

lemma NumChildren_NewUnixfsNode [simp]: "NumChildren (NewUnixfsNode db) = 0"
  by (simp add: NumChildren_def NewUnixfsNode_def)

lemma node_NewUnixfsNode [simp]: "node (NewUnixfsNode db) \<noteq> None"
  by (simp add: NewUnixfsNode_def)

lemma FillNodeLayer_takes:
  assumes "remaining db cs" and "FillNodeLayer env db n = (None, db', n')"
  shows "remaining db' (drop (min (nat (maxlinks db - NumChildren n)) (length cs)) cs)
         \<and> child_payloads n' =
             child_payloads n @ take (min (nat (maxlinks db - NumChildren n)) (length cs)) cs"
  using assms
proof (induction env db n arbitrary: cs rule: FillNodeLayer.induct)
  case (1 env db n)
  note rem = "1.prems"(1) and res = "1.prems"(2)
  show ?case
  proof (cases "NumChildren n < maxlinks db")
    case False
    then have "db' = db" and "n' = n"
      using res by (simp_all add: FillNodeLayer_no_room)
    then show ?thesis
      using False rem by simp
  next
    case room: True
    define db1 where "db1 = prepareNext db"
    have d: "Done db = (cs = [], db1)"
      using remaining_Done [OF rem] by (simp add: db1_def)
    have rem1: "remaining db1 cs"
      using remaining_prepareNext(1) [OF rem] by (simp add: db1_def)
    show ?thesis
    proof (cases cs)
      case Nil
      then have "FillNodeLayer env db n = (None, db1, n)"
        using FillNodeLayer_done [OF room, of db1 env] d by simp
      then show ?thesis
        using res rem1 Nil by simp
    next
      case (Cons c cs')
      define db2 where "db2 = (prepareNext db1)\<lparr>nextData := None\<rparr>"
      have d': "Done db = (False, db1)"
        using d Cons by simp
      have rem2: "remaining db2 cs'"
        using remaining_taken [of db1 c cs'] rem1 Cons by (simp add: db2_def)
      have g: "GetNextDataNode env db1 =
                 (case NewLeaf env db2 (Some c) of
                    Inl err \<Rightarrow> (Inl err, db2)
                  | Inr l \<Rightarrow> (Inr (Some l), db2))"
        unfolding db2_def using remaining_GetNextDataNode [of db1 c cs' env] rem1 Cons by simp
      show ?thesis
      proof (cases "NewLeaf env db2 (Some c)")
        case (Inl err)
        then have "FillNodeLayer env db n = (Some err, db2, n)"
          using FillNodeLayer_no_leaf [OF room d', of env err db2] g by simp
        then show ?thesis
          using res by simp
      next
        case (Inr l)
        have g': "GetNextDataNode env db1 = (Inr (Some l), db2)"
          using g Inr by simp
        have pl: "payload l = c"
          using payload_NewLeaf [OF Inr] .
        obtain e n2 db3 where a: "AddChild env n (Some l) db2 = (e, n2, db3)"
          by (cases "AddChild env n (Some l) db2")
        show ?thesis
        proof (cases e)
          case (Some err)
          then have "FillNodeLayer env db n = (Some err, db3, n2)"
            using FillNodeLayer_add_failed [OF room d' g'] a by simp
          then show ?thesis
            using res by simp
        next
          case None
          have a': "AddChild env n (Some l) db2 = (None, n2, db3)"
            using a None by simp
          have st: "FillNodeLayer env db n = FillNodeLayer env db3 n2"
            using FillNodeLayer_step [OF room d' g' a'] .
          have rem3: "remaining db3 cs'"
            using AddChild_ok(2) [OF a', of cs'] rem2 by simp
          have ch: "child_payloads n2 = child_payloads n @ [c]"
            using AddChild_ok(1) [OF a'] pl by (simp add: child_payloads_def)
          have nc: "NumChildren n2 = NumChildren n + 1"
            using NumChildren_AddChild_ok [OF a'] .
          have m1: "maxlinks db1 = maxlinks db"
            by (simp add: db1_def)
          have m2: "maxlinks db2 = maxlinks db"
            by (simp add: db2_def m1)
          have m3: "maxlinks db3 = maxlinks db"
            using maxlinks_AddChild [of env n "Some l" db2] a' m2 by simp
          have ih: "remaining db' (drop (min (nat (maxlinks db3 - NumChildren n2)) (length cs')) cs')
                    \<and> child_payloads n' =
                        child_payloads n2 @ take (min (nat (maxlinks db3 - NumChildren n2)) (length cs')) cs'"
            using "1.IH" [OF room d' [symmetric] refl g' [symmetric] refl a' [symmetric] refl refl rem3]
              st res by simp
          have j: "min (nat (maxlinks db - NumChildren n)) (Suc (length cs'))
                     = Suc (min (nat (maxlinks db3 - NumChildren n2)) (length cs'))"
            using room nc m3 by (simp add: min_def) linarith
          show ?thesis
            using ih ch Cons by (simp add: j)
        qed
      qed
    qed
  qed
qed


lemma NewLeaf_succeeds:
  assumes "length c \<le> BlockSizeLimit env" and "\<forall>p d. sum_err env p d = None"
  shows "\<exists>l. NewLeaf env db (Some c) = Inr l"
  using assms by (simp add: NewLeaf_def NewRawNodeWPrefix_def split: option.splits)

lemma AddChild_succeeds:
  assumes "node n \<noteq> None" and "\<forall>b m. put_err env b m = None"
  shows "\<exists>n' db'. AddChild env n (Some c) db = (None, n', db')"
proof (cases n)
  case (UnixfsNode r rn pn u)
  then obtain q where "pn = Some q"
    using assms(1) by auto
  then show ?thesis
    using UnixfsNode assms(2) by (cases q) (simp add: Let_def)
qed

lemma FillNodeLayer_succeeds:
  assumes "remaining db cs"
    and "\<forall>c\<in>set cs. length c \<le> BlockSizeLimit env"
    and "\<forall>p d. sum_err env p d = None"
    and "\<forall>b m. put_err env b m = None"
    and "node n \<noteq> None"
  shows "fst (FillNodeLayer env db n) = None"
  using assms
proof (induction env db n arbitrary: cs rule: FillNodeLayer.induct)
  case (1 env db n)
  note rem = "1.prems"(1) and bound = "1.prems"(2) and hash = "1.prems"(3)
    and put = "1.prems"(4) and internal = "1.prems"(5)
  show ?case
  proof (cases "NumChildren n < maxlinks db")
    case False
    then show ?thesis
      by (simp add: FillNodeLayer_no_room)
  next
    case room: True
    define db1 where "db1 = prepareNext db"
    have d: "Done db = (cs = [], db1)"
      using remaining_Done [OF rem] by (simp add: db1_def)
    have rem1: "remaining db1 cs"
      using remaining_prepareNext(1) [OF rem] by (simp add: db1_def)
    show ?thesis
    proof (cases cs)
      case Nil
      then have "FillNodeLayer env db n = (None, db1, n)"
        using FillNodeLayer_done [OF room, of db1 env] d by simp
      then show ?thesis by simp
    next
      case (Cons c cs')
      define db2 where "db2 = (prepareNext db1)\<lparr>nextData := None\<rparr>"
      have d': "Done db = (False, db1)"
        using d Cons by simp
      have rem2: "remaining db2 cs'"
        using remaining_taken [of db1 c cs'] rem1 Cons by (simp add: db2_def)
      obtain l where l: "NewLeaf env db2 (Some c) = Inr l"
        using NewLeaf_succeeds [of c env db2] bound hash Cons by auto
      have g': "GetNextDataNode env db1 = (Inr (Some l), db2)"
        using remaining_GetNextDataNode [of db1 c cs' env] rem1 Cons l
        unfolding db2_def by simp
      obtain n2 db3 where a': "AddChild env n (Some l) db2 = (None, n2, db3)"
        using AddChild_succeeds [OF internal put] by blast
      have st: "FillNodeLayer env db n = FillNodeLayer env db3 n2"
        using FillNodeLayer_step [OF room d' g' a'] .
      have rem3: "remaining db3 cs'"
        using AddChild_ok(2) [OF a', of cs'] rem2 by simp
      have bound': "\<forall>c\<in>set cs'. length c \<le> BlockSizeLimit env"
        using bound Cons by simp
      have "fst (FillNodeLayer env db3 n2) = None"
        using "1.IH" [OF room d' [symmetric] refl g' [symmetric] refl a' [symmetric] refl refl
            rem3 bound' hash put AddChild_ok(3) [OF a']] .
      then show ?thesis
        using st by simp
    qed
  qed
qed

lemma leaf_bytes_Cons: "leaf_bytes (n # ns) = concat (child_payloads n) @ leaf_bytes ns"
  by (simp add: leaf_bytes_def)

lemma min_layers:
  "min m l + min (k * m) (l - min m l) = min (Suc k * m) (l::nat)"
proof -
  define x where "x = k * m"
  have "min m l + min x (l - min m l) = min (m + x) l"
    by (simp add: min_def) linarith
  then show ?thesis
    by (simp add: x_def)
qed

lemma FillLayers_takes:
  assumes "remaining db cs" and "FillLayers env db k = (None, db', ns)"
  shows "remaining db' (drop (min (k * nat (maxlinks db)) (length cs)) cs)
         \<and> leaf_bytes ns = concat (take (min (k * nat (maxlinks db)) (length cs)) cs)"
  using assms
proof (induction k arbitrary: db cs ns)
  case 0
  then show ?case by (simp add: leaf_bytes_def)
next
  case (Suc k)
  obtain r db1 n where f: "FillNodeLayer env db (NewUnixfsNode db) = (r, db1, n)"
    by (cases "FillNodeLayer env db (NewUnixfsNode db)")
  obtain r2 db2 ns2 where l: "FillLayers env db1 k = (r2, db2, ns2)"
    by (cases "FillLayers env db1 k")
  have r: "r = None"
    using Suc.prems(2) f by (cases r) simp_all
  have res: "r2 = None" "db' = db2" "ns = n # ns2"
    using Suc.prems(2) f l r by simp_all
  define j where "j = min (nat (maxlinks db)) (length cs)"
  have t: "remaining db1 (drop j cs) \<and> child_payloads n = take j cs"
    using FillNodeLayer_takes [OF Suc.prems(1), of env "NewUnixfsNode db" db1 n] f r
    by (simp add: j_def)
  have m: "maxlinks db1 = maxlinks db"
    using maxlinks_FillNodeLayer [of env db "NewUnixfsNode db"] f by simp
  define j2 where "j2 = min (k * nat (maxlinks db)) (length cs - j)"
  have ih: "remaining db' (drop j2 (drop j cs)) \<and> leaf_bytes ns2 = concat (take j2 (drop j cs))"
    using Suc.IH [of db1 "drop j cs" ns2] t l res m by (simp add: j2_def)
  have sum: "j + j2 = min (Suc k * nat (maxlinks db)) (length cs)"
    unfolding j_def j2_def by (rule min_layers)
  have "take (j + j2) cs = take j cs @ take j2 (drop j cs)"
    by (simp add: take_add)
  then have "leaf_bytes ns = concat (take (j + j2) cs)"
    using ih t res by (simp add: leaf_bytes_Cons)
  moreover have "remaining db' (drop (j + j2) cs)"
    using ih by (simp add: add.commute)
  ultimately show ?case
    by (simp only: sum)
qed

lemma FillLayers_succeeds:
  assumes "remaining db cs"
    and "\<forall>c\<in>set cs. length c \<le> BlockSizeLimit env"
    and "\<forall>p d. sum_err env p d = None"
    and "\<forall>b m. put_err env b m = None"
  shows "fst (FillLayers env db k) = None"
  using assms(1,2)
proof (induction k arbitrary: db cs)
  case 0
  then show ?case by simp
next
  case (Suc k)
  obtain r db1 n where f: "FillNodeLayer env db (NewUnixfsNode db) = (r, db1, n)"
    by (cases "FillNodeLayer env db (NewUnixfsNode db)")
  have r: "r = None"
    using FillNodeLayer_succeeds [OF Suc.prems(1,2) assms(3,4), of "NewUnixfsNode db"] f
    by simp
  define j where "j = min (nat (maxlinks db)) (length cs)"
  have t: "remaining db1 (drop j cs)"
    using FillNodeLayer_takes [OF Suc.prems(1), of env "NewUnixfsNode db" db1 n] f r
    by (simp add: j_def)
  have "\<forall>c\<in>set (drop j cs). length c \<le> BlockSizeLimit env"
    using Suc.prems(2) by (meson in_set_dropD)
  then have "fst (FillLayers env db1 k) = None"
    using Suc.IH [OF t] by simp
  then show ?case
    using f r by (cases "FillLayers env db1 k") simp
qed

lemma remaining_Done_iff: "remaining db cs \<Longrightarrow> fst (Done db) \<longleftrightarrow> cs = []"
  by (simp add: remaining_Done)


text \<open>
  C2: the helper is created over a splitter that delivers the chunks \<open>cs\<close> and then
  the end of the stream, and \<open>FillNodeLayer\<close> is called \<open>k\<close> times, each time on a
  fresh node. Whenever the calls return no error and \<open>Done\<close> then reports the end of
  the stream, the payloads of the leaves, in child order, concatenate to the bytes of the
  stream. When every chunk has at most \<open>BlockSizeLimit\<close> bytes, building raw blocks
  and staging nodes do not fail and \<open>k\<close> nodes have room for all the chunks, the calls
  do return no error, \<open>Done\<close> does report the end, and the bytes are those of the
  stream.
\<close>

theorem leaves_reproduce_stream:
  "(fst (FillLayers env (New dbp (chunk_source cs)) k) = None
      \<and> fst (Done (fst (snd (FillLayers env (New dbp (chunk_source cs)) k))))
    \<longrightarrow> leaf_bytes (snd (snd (FillLayers env (New dbp (chunk_source cs)) k))) = concat cs)
   \<and> ((\<forall>c\<in>set cs. length c \<le> BlockSizeLimit env)
        \<and> (\<forall>p d. sum_err env p d = None)
        \<and> (\<forall>b m. put_err env b m = None)
        \<and> int (length cs) \<le> int k * Maxlinks dbp
    \<longrightarrow> fst (FillLayers env (New dbp (chunk_source cs)) k) = None
        \<and> fst (Done (fst (snd (FillLayers env (New dbp (chunk_source cs)) k))))
        \<and> leaf_bytes (snd (snd (FillLayers env (New dbp (chunk_source cs)) k))) = concat cs)"
proof -
  define db where "db = New dbp (chunk_source cs)"
  define j where "j = min (k * nat (maxlinks db)) (length cs)"
  obtain r db' ns where f: "FillLayers env db k = (r, db', ns)"
    by (cases "FillLayers env db k")
  have rem: "remaining db cs"
    by (simp add: db_def remaining_New)
  have general: "leaf_bytes ns = concat cs" if "r = None" and "fst (Done db')"
  proof -
    have t: "remaining db' (drop j cs) \<and> leaf_bytes ns = concat (take j cs)"
      using FillLayers_takes [OF rem, of env k db' ns] f that(1) by (simp add: j_def)
    then have "drop j cs = []"
      using remaining_Done_iff [of db' "drop j cs"] that(2) by simp
    then show ?thesis
      using t by simp
  qed
  have total: "r = None \<and> fst (Done db')"
    if bound: "\<forall>c\<in>set cs. length c \<le> BlockSizeLimit env"
      and hash: "\<forall>p d. sum_err env p d = None"
      and put: "\<forall>b m. put_err env b m = None"
      and enough: "int (length cs) \<le> int k * Maxlinks dbp"
  proof -
    have r: "r = None"
      using FillLayers_succeeds [OF rem bound hash put, of k] f by simp
    have t: "remaining db' (drop j cs)"
      using FillLayers_takes [OF rem, of env k db' ns] f r by (simp add: j_def)
    have m: "maxlinks db = Maxlinks dbp"
      by (simp add: db_def New_def)
    have "length cs \<le> k * nat (maxlinks db)"
    proof (cases "0 \<le> Maxlinks dbp")
      case True
      then have "int (k * nat (maxlinks db)) = int k * Maxlinks dbp"
        by (simp add: m)
      then show ?thesis
        using enough by linarith
    next
      case False
      then have "int k * Maxlinks dbp \<le> 0"
        by (simp add: mult_nonneg_nonpos)
      then show ?thesis
        using enough by simp
    qed
    then have "drop j cs = []"
      by (simp add: j_def)
    then show ?thesis
      using r t remaining_Done_iff [of db' "drop j cs"] by simp
  qed
  show ?thesis
    using general total f by (auto simp: db_def [symmetric])
qed

theorem leaves_reproduce_stream_witness:
  "length ''ABCD'' \<le> BlockSizeLimit env4
   \<and> length ''EFGH'' \<le> BlockSizeLimit env4
   \<and> length ''IJ'' \<le> BlockSizeLimit env4
   \<and> int (length [''ABCD'', ''EFGH'', ''IJ'']) \<le> int 2 * Maxlinks (params2 False)
   \<and> fst (FillLayers env4 (New (params2 False) (chunk_source [''ABCD'', ''EFGH'', ''IJ''])) 2) = None
   \<and> fst (Done (fst (snd
        (FillLayers env4 (New (params2 False) (chunk_source [''ABCD'', ''EFGH'', ''IJ''])) 2))))
   \<and> leaf_bytes (snd (snd
        (FillLayers env4 (New (params2 False) (chunk_source [''ABCD'', ''EFGH'', ''IJ''])) 2)))
       = ''ABCDEFGHIJ''"
  using leaves_reproduce_stream
    [of env4 "params2 False" "[''ABCD'', ''EFGH'', ''IJ'']" 2]
  by (simp add: env4_def params2_def)

lemmas run_defs =
  Done_def Next_def prepareNext_def NextBytes_def New_def params2_def Let_def
  chunk_source_def env4_def GetNextDataNode_def NewLeaf_def NewUnixfsNode_def
  newUnixfsBlock_def NewRawNode_def NumChildren_def child_payloads_def

text \<open>
  C8: with a block size limit of 4, at most 2 links and the chunks \<open>''ABCD''\<close>,
  \<open>''EFGH''\<close>, \<open>''IJ''\<close>, with raw leaves or without: the first call of
  \<open>FillNodeLayer\<close> on a fresh node returns no error and a node with exactly the two
  children for \<open>''ABCD''\<close> and \<open>''EFGH''\<close>, leaving \<open>''IJ''\<close> with the splitter; a
  second call on a fresh node returns a node with exactly one child, for \<open>''IJ''\<close>.
  \<open>Done\<close> returns false at the start, after one chunk and after the first call, and
  true after the second call.
\<close>

theorem three_chunks_example:
  "(case FillNodeLayer env4 (New (params2 rl) (chunk_source [''ABCD'', ''EFGH'', ''IJ'']))
           (NewUnixfsNode (New (params2 rl) (chunk_source [''ABCD'', ''EFGH'', ''IJ'']))) of
      (r1, db1, n1) \<Rightarrow>
        r1 = None
        \<and> NumChildren n1 = 2
        \<and> child_payloads n1 = [''ABCD'', ''EFGH'']
        \<and> nextData db1 = None
        \<and> spl db1 = chunk_source [''IJ'']
        \<and> \<not> fst (Done db1)
        \<and> (case FillNodeLayer env4 db1 (NewUnixfsNode db1) of
              (r2, db2, n2) \<Rightarrow>
                r2 = None
                \<and> NumChildren n2 = 1
                \<and> child_payloads n2 = [''IJ'']
                \<and> fst (Done db2)))
   \<and> \<not> fst (Done (New (params2 rl) (chunk_source [''ABCD'', ''EFGH'', ''IJ''])))
   \<and> \<not> fst (Done (snd (GetNextDataNode env4
          (New (params2 rl) (chunk_source [''ABCD'', ''EFGH'', ''IJ''])))))"
  by (cases rl) (simp_all add: FillNodeLayer.simps run_defs)

theorem three_chunks_example_witness:
  "NumChildren (snd (snd (FillNodeLayer env4
       (New (params2 True) (chunk_source [''ABCD'', ''EFGH'', ''IJ'']))
       (NewUnixfsNode (New (params2 True) (chunk_source [''ABCD'', ''EFGH'', ''IJ'']))))))
     = 2
   \<and> child_payloads (snd (snd (FillNodeLayer env4
       (New (params2 True) (chunk_source [''ABCD'', ''EFGH'', ''IJ'']))
       (NewUnixfsNode (New (params2 True) (chunk_source [''ABCD'', ''EFGH'', ''IJ'']))))))
     = [''ABCD'', ''EFGH'']"
  using three_chunks_example [of True]
  by (simp split: prod.splits)

end
